theory Spec2Isabelle
  imports Complex_Main
begin


section \<open>The Hough line detector of Hough.cpp\<close>

text \<open>
  The class \<open>Hough\<close> of \<open>TestHough/Hough.cpp\<close>: a constructor that fills the cosine and
  sine tables, \<open>init\<close> that builds the (rho, theta) accumulator of an image, \<open>getLine\<close>
  that maps a cell of the accumulator back to a segment, and \<open>getLines\<close> that scans the
  thresholded accumulator for local maxima.

  Conventions of the embedding.
  \<^item> \<open>float\<close> and \<open>double\<close> values are real numbers: rounding of the single operations is
    not modelled. The conversion of a \<open>float\<close> to an \<open>int\<close> truncates toward zero.
  \<^item> A cell of the accumulator (a \<open>float\<close> that is only ever zeroed and incremented by one)
    is an integer count; a pixel (\<open>uchar\<close>) is a natural number below 256.
  \<^item> A \<open>cv::Mat\<close> is its number of rows, its number of columns and its continuous row-major
    buffer; a row pointer is an offset into that buffer.
  \<^item> An access outside a buffer or a table, and a division by a zero sine, are results
    \<open>Inl e\<close> of the operation that performs them.
  \<^item> \<open>thetaMax\<close> is declared in \<open>Hough.h\<close>, which is not among the sources; it is the
    argument of the constructor here (the documentation gives 180 as its value).
  \<^item> \<open>tbb::parallel_for\<close> is run in ascending order of its index; the interleaving of the
    workers of \<open>init\<close> is treated separately, in the section on the parallel loop.
\<close>

subsection \<open>Data\<close>

datatype error = OutOfBounds | DivisionByZero

record 'a mat =
  rows :: nat
  cols :: nat
  data :: "'a list"

type_synonym point = "int \<times> int"

record hough =
  thetaMax :: nat
  cosines :: "real list"
  sines :: "real list"
  imageSize :: "nat \<times> nat"
  rhoRange :: int
  accum :: "int mat"
  centerX :: int
  centerY :: int

definition float_to_int :: "real \<Rightarrow> int" where
  "float_to_int x = (if 0 \<le> x then \<lfloor>x\<rfloor> else \<lceil>x\<rceil>)"

definition MAX_macro :: "int \<Rightarrow> int \<Rightarrow> int" where
  "MAX_macro a b = (if a > b then a else b)"

fun foldE :: "('a \<Rightarrow> 's \<Rightarrow> error + 's) \<Rightarrow> 'a list \<Rightarrow> 's \<Rightarrow> error + 's" where
  "foldE f [] s = Inr s"
| "foldE f (x # xs) s = (case f x s of Inl e \<Rightarrow> Inl e | Inr s' \<Rightarrow> foldE f xs s')"

subsection \<open>The constructor\<close>

definition theta_rad :: "nat \<Rightarrow> real" where
  "theta_rad theta = real theta * pi / 180"

text \<open>
  The constructor reserves \<open>thetaMax\<close> entries for each table and writes them through
  \<open>operator[]\<close>; the tables are the lists of the values written. The members that the
  constructor leaves uninitialised (\<open>rhoRange\<close>, the centre, the image size) are zero here,
  and \<open>accum\<close> is the empty matrix. \<open>theta * M_PI / 180.0\<close> is \<open>theta_rad\<close>.
\<close>

definition Hough :: "nat \<Rightarrow> hough" where
  "Hough tm =
     \<lparr>thetaMax = tm,
      cosines = map (\<lambda>theta. cos (theta_rad theta)) [0..<tm],
      sines = map (\<lambda>theta. sin (theta_rad theta)) [0..<tm],
      imageSize = (0, 0),
      rhoRange = 0,
      accum = \<lparr>rows = 0, cols = 0, data = []\<rparr>,
      centerX = 0,
      centerY = 0\<rparr>"

subsection \<open>normalize\<close>

text \<open>
  \<open>cv::normalize(src, image, 0, 255, NORM_MINMAX)\<close> of OpenCV, on an 8-bit single-channel
  matrix: with \<open>smin\<close> and \<open>smax\<close> the least and the greatest pixel (both 0 for a matrix
  without pixels), every pixel \<open>v\<close> becomes \<open>(v - smin) * 255 / (smax - smin)\<close> rounded to
  the nearest integer (ties to even) and saturated to 255, or 0 when \<open>smax = smin\<close>. The
  result has the size of \<open>src\<close>.
\<close>

definition cvRound_quot :: "nat \<Rightarrow> nat \<Rightarrow> nat" where
  "cvRound_quot q d =
     (let f = q div d; r = q mod d
      in if 2 * r < d then f else if d < 2 * r then f + 1
         else if even f then f else f + 1)"

definition minMax :: "nat list \<Rightarrow> nat \<times> nat" where
  "minMax vs = (case vs of [] \<Rightarrow> (0, 0) | v # ws \<Rightarrow> (fold min ws v, fold max ws v))"

definition normalize :: "nat mat \<Rightarrow> nat mat" where
  "normalize src =
     (let (smin, smax) = minMax (data src)
      in src\<lparr>data := map (\<lambda>v. if smin < smax
                                then min 255 (cvRound_quot ((v - smin) * 255) (smax - smin))
                                else 0) (data src)\<rparr>)"

subsection \<open>init\<close>

text \<open>
  \<open>MAX(image.cols, image.rows) * 0.70710678\<close> is a \<open>double\<close> that the assignment to the
  \<open>int\<close> member truncates. The product with the decimal constant is computed exactly here
  (the \<open>double\<close> product has the same integer part for every dimension below 50,000,000).
\<close>

definition rhoRange_of :: "nat \<Rightarrow> nat \<Rightarrow> int" where
  "rhoRange_of c r = (int (max c r) * 70710678) div 100000000"

definition MatZeros :: "nat \<Rightarrow> nat \<Rightarrow> int mat" where
  "MatZeros r c = \<lparr>rows = r, cols = c, data = replicate (r * c) 0\<rparr>"

text \<open>\<open>accum.at<float>(i, j)++\<close>: the cell of row \<open>i\<close> and column \<open>j\<close> gains one.\<close>

definition at_incr :: "int mat \<Rightarrow> int \<Rightarrow> nat \<Rightarrow> error + int mat" where
  "at_incr A i j =
     (if 0 \<le> i \<and> i < int (rows A) \<and> j < cols A
      then Inr (A\<lparr>data := (data A)[nat i * cols A + j := data A ! (nat i * cols A + j) + 1]\<rparr>)
      else Inl OutOfBounds)"

text \<open>Lines 55 to 59: the vote of one pixel at one angle.\<close>

definition rho_index_of :: "hough \<Rightarrow> real \<Rightarrow> real \<Rightarrow> nat \<Rightarrow> int" where
  "rho_index_of h dx dy theta =
     (let r = dx * cosines h ! theta + dy * sines h ! theta
      in float_to_int (real_of_int (rhoRange h) + r))"

definition vote :: "hough \<Rightarrow> real \<Rightarrow> real \<Rightarrow> nat \<Rightarrow> int mat \<Rightarrow> error + int mat" where
  "vote h dx dy theta A = at_incr A (rho_index_of h dx dy theta) theta"

text \<open>Lines 47 to 61: one pixel, then one row of the image.\<close>

definition init_pixel :: "hough \<Rightarrow> nat mat \<Rightarrow> real \<Rightarrow> nat \<Rightarrow> nat \<Rightarrow> int mat \<Rightarrow> error + int mat" where
  "init_pixel h img dy y x A =
     (if data img ! (y * cols img + x) = 0 then Inr A
      else let dx = real_of_int (int x - centerX h)
           in foldE (vote h dx dy) [0..<thetaMax h] A)"

definition init_row :: "hough \<Rightarrow> nat mat \<Rightarrow> nat \<Rightarrow> int mat \<Rightarrow> error + int mat" where
  "init_row h img y A =
     (let dy = real_of_int (int y - centerY h)
      in foldE (init_pixel h img dy y) [0..<cols img] A)"

text \<open>Lines 38 to 41: the geometry and the zeroed accumulator.\<close>

definition init_geometry :: "hough \<Rightarrow> nat mat \<Rightarrow> hough" where
  "init_geometry h img =
     (let rr = rhoRange_of (cols img) (rows img)
      in h\<lparr>rhoRange := rr,
           accum := MatZeros (nat (rr * 2)) (thetaMax h),
           centerX := int (cols img div 2),
           centerY := int (rows img div 2)\<rparr>)"

definition init_accumulate :: "hough \<Rightarrow> nat mat \<Rightarrow> error + hough" where
  "init_accumulate h img =
     (let h1 = init_geometry h img
      in case foldE (init_row h1 img) [0..<rows img] (accum h1) of
           Inl e \<Rightarrow> Inl e
         | Inr A \<Rightarrow> Inr (h1\<lparr>accum := A\<rparr>))"

definition init :: "hough \<Rightarrow> nat mat \<Rightarrow> error + hough" where
  "init h src =
     init_accumulate (h\<lparr>imageSize := (cols src, rows src)\<rparr>) (normalize src)"

text \<open>
  The same loops as the list of the cells they increment, in the order of the increments.
\<close>

definition cell_incr :: "int \<times> nat \<Rightarrow> int mat \<Rightarrow> error + int mat" where
  "cell_incr v A = at_incr A (fst v) (snd v)"

definition pixel_votes :: "hough \<Rightarrow> real \<Rightarrow> real \<Rightarrow> (int \<times> nat) list" where
  "pixel_votes h dx dy = map (\<lambda>theta. (rho_index_of h dx dy theta, theta)) [0..<thetaMax h]"

definition row_votes :: "hough \<Rightarrow> nat mat \<Rightarrow> nat \<Rightarrow> (int \<times> nat) list" where
  "row_votes h img y =
     concat (map (\<lambda>x. if data img ! (y * cols img + x) = 0 then []
                       else pixel_votes h (real_of_int (int x - centerX h))
                                          (real_of_int (int y - centerY h)))
                 [0..<cols img])"

definition image_votes :: "hough \<Rightarrow> nat mat \<Rightarrow> (int \<times> nat) list" where
  "image_votes h img = concat (map (row_votes h img) [0..<rows img])"

subsection \<open>getLine\<close>

definition getLine :: "hough \<Rightarrow> int \<Rightarrow> int \<Rightarrow> error + (point \<times> point)" where
  "getLine h rho_index theta =
     (if theta < 0 \<or> int (thetaMax h) \<le> theta then Inl OutOfBounds
      else if sines h ! nat theta = 0 then Inl DivisionByZero
      else
        let rho = real_of_int (rho_index - rhoRange h);
            x1 = 0;
            y1 = float_to_int ((rho - real_of_int (x1 - centerX h) * cosines h ! nat theta)
                                / sines h ! nat theta + real_of_int (centerY h));
            x2 = int (fst (imageSize h));
            y2 = float_to_int ((rho - real_of_int (x2 - centerX h) * cosines h ! nat theta)
                                / sines h ! nat theta + real_of_int (centerY h))
        in Inr ((x1, y1), (x2, y2)))"

subsection \<open>getLines\<close>

text \<open>\<open>accum.copyTo(thresholded, accum >= thresh)\<close>: the cells below the threshold are zero.\<close>

definition thresholded :: "int mat \<Rightarrow> int \<Rightarrow> int mat" where
  "thresholded A thresh = A\<lparr>data := map (\<lambda>v. if v \<ge> thresh then v else 0) (data A)\<rparr>"

text \<open>\<open>thresholded.ptr<float>(i)\<close>, as an offset into the buffer, and the read of a pointer.\<close>

definition ptr :: "int mat \<Rightarrow> nat \<Rightarrow> int" where
  "ptr T i = int (i * cols T)"

definition rd :: "int list \<Rightarrow> int \<Rightarrow> error + int" where
  "rd d off = (if 0 \<le> off \<and> off < int (length d) then Inr (d ! nat off) else Inl OutOfBounds)"

text \<open>Lines 116 to 120: the loop over \<open>x\<close>, which reads \<open>prev_row[x]\<close>, \<open>curr_row[x]\<close>, \<open>next_row[x]\<close>.\<close>

fun window_max :: "int list \<Rightarrow> int \<Rightarrow> int \<Rightarrow> int \<Rightarrow> int list \<Rightarrow> int \<Rightarrow> error + int" where
  "window_max d prev_row curr_row next_row [] m = Inr m"
| "window_max d prev_row curr_row next_row (x # xs) m =
     (case rd d (prev_row + x) of Inl e \<Rightarrow> Inl e | Inr a \<Rightarrow>
       (case rd d (curr_row + x) of Inl e \<Rightarrow> Inl e | Inr b \<Rightarrow>
         (case rd d (next_row + x) of Inl e \<Rightarrow> Inl e | Inr c \<Rightarrow>
            window_max d prev_row curr_row next_row xs
              (MAX_macro (MAX_macro (MAX_macro m a) b) c))))"

text \<open>Lines 112 to 123: whether the body of the loop over \<open>theta\<close> reaches the \<open>push_back\<close>.\<close>

definition is_local_max :: "int list \<Rightarrow> int \<Rightarrow> int \<Rightarrow> int \<Rightarrow> nat \<Rightarrow> error + bool" where
  "is_local_max d prev_row curr_row next_row theta =
     (case rd d (curr_row + int theta) of Inl e \<Rightarrow> Inl e | Inr m0 \<Rightarrow>
        (if m0 \<noteq> 0
         then (case window_max d prev_row curr_row next_row [-1, 0, 1] m0 of
                 Inl e \<Rightarrow> Inl e
               | Inr m \<Rightarrow> Inr (m = m0))
         else Inr False))"

text \<open>Line 111: the angles of one row at which a segment is pushed.\<close>

definition scan_row :: "int list \<Rightarrow> int \<Rightarrow> int \<Rightarrow> int \<Rightarrow> nat list \<Rightarrow> error + nat list" where
  "scan_row d prev_row curr_row next_row thetas =
     foldE (\<lambda>theta found.
              case is_local_max d prev_row curr_row next_row theta of
                Inl e \<Rightarrow> Inl e
              | Inr b \<Rightarrow> Inr (if b then found @ [theta] else found))
           thetas []"

text \<open>
  Lines 110 to 145: one turn of the loop over \<open>rho_index\<close>. The state is the three row
  pointers and the coordinates \<open>(rho_index, theta)\<close> at which a segment was pushed so far;
  \<open>next_row\<close> is set to the row \<open>rho_index + 1\<close>, as line 144 does. The bounds
  \<open>thresholded.rows - 1\<close> and \<open>thetaMax - 1\<close> are \<open>-1\<close> in the source when the matrix has
  no rows or there is no angle; the loops are empty then, as they are here, where the
  difference of natural numbers is 0.
\<close>

definition getLines_step ::
  "int mat \<Rightarrow> nat \<Rightarrow> nat \<Rightarrow> int \<times> int \<times> int \<times> (nat \<times> nat) list
     \<Rightarrow> error + (int \<times> int \<times> int \<times> (nat \<times> nat) list)" where
  "getLines_step T tm rho_index st =
     (case st of (prev_row, curr_row, next_row, found) \<Rightarrow>
        (case scan_row (data T) prev_row curr_row next_row [1..<tm - 1] of
           Inl e \<Rightarrow> Inl e
         | Inr thetas \<Rightarrow>
             Inr (curr_row, next_row, ptr T (rho_index + 1),
                  found @ map (\<lambda>theta. (rho_index, theta)) thetas)))"

definition getLines_peaks :: "hough \<Rightarrow> int \<Rightarrow> error + (nat \<times> nat) list" where
  "getLines_peaks h thresh =
     (if thresh < 1 then Inr []
      else
        let T = thresholded (accum h) thresh
        in case foldE (getLines_step T (thetaMax h)) [1..<rows T - 1]
                  (ptr T 0, ptr T 1, ptr T 2, []) of
             Inl e \<Rightarrow> Inl e
           | Inr (prev_row, curr_row, next_row, found) \<Rightarrow> Inr found)"

text \<open>Lines 125 to 135: the segment pushed for the loop variables \<open>rho_index\<close> and \<open>theta\<close>.\<close>

definition getLines_segment :: "hough \<Rightarrow> nat \<Rightarrow> nat \<Rightarrow> error + (point \<times> point)" where
  "getLines_segment h rho_index theta =
     (if thetaMax h \<le> theta then Inl OutOfBounds
      else if sines h ! theta = 0 then Inl DivisionByZero
      else
        let rho = real_of_int (int rho_index - rhoRange h);
            x1 = 0;
            y1 = float_to_int ((rho - real_of_int (x1 - centerX h) * cosines h ! theta)
                                / sines h ! theta + real_of_int (centerY h));
            x2 = int (fst (imageSize h));
            y2 = float_to_int ((rho - real_of_int (x2 - centerX h) * cosines h ! theta)
                                / sines h ! theta + real_of_int (centerY h))
        in Inr ((x1, y1), (x2, y2)))"

fun mapE :: "('a \<Rightarrow> error + 'b) \<Rightarrow> 'a list \<Rightarrow> error + 'b list" where
  "mapE f [] = Inr []"
| "mapE f (x # xs) =
     (case f x of Inl e \<Rightarrow> Inl e | Inr y \<Rightarrow>
       (case mapE f xs of Inl e \<Rightarrow> Inl e | Inr ys \<Rightarrow> Inr (y # ys)))"

definition getLines :: "hough \<Rightarrow> int \<Rightarrow> error + (point \<times> point) list" where
  "getLines h thresh =
     (case getLines_peaks h thresh of
        Inl e \<Rightarrow> Inl e
      | Inr found \<Rightarrow> mapE (\<lambda>(rho_index, theta). getLines_segment h rho_index theta) found)"

subsection \<open>The accumulator as a tally of votes\<close>

text \<open>
  A vote is in range when \<open>at\<close> is given a row and a column of the matrix; the tally of a
  list of votes adds to every cell the number of votes for it.
\<close>

definition in_range :: "int mat \<Rightarrow> int \<times> nat \<Rightarrow> bool" where
  "in_range A v \<longleftrightarrow> 0 \<le> fst v \<and> fst v < int (rows A) \<and> snd v < cols A"

definition tally :: "int mat \<Rightarrow> (int \<times> nat) list \<Rightarrow> int mat" where
  "tally A vs = A\<lparr>data := map (\<lambda>k. data A ! k + int (count_list vs (int (k div cols A), k mod cols A)))
                              [0..<length (data A)]\<rparr>"

section \<open>The peak test in the words of the specification\<close>

text \<open>
  The cell of a matrix, and the test of the specification: the cell at \<open>(rho_index, theta)\<close>
  is not zero and no cell of the 3 by 3 neighbourhood centred on it is strictly greater.
\<close>

definition cell :: "int mat \<Rightarrow> nat \<Rightarrow> nat \<Rightarrow> int" where
  "cell T r t = data T ! (r * cols T + t)"

definition spec_is_peak :: "int mat \<Rightarrow> nat \<Rightarrow> nat \<Rightarrow> bool" where
  "spec_is_peak T rho_index theta \<longleftrightarrow>
     cell T rho_index theta \<noteq> 0
     \<and> list_all (\<lambda>r. list_all (\<lambda>t. \<not> cell T r t > cell T rho_index theta)
                                [theta - 1 ..< theta + 2])
                 [rho_index - 1 ..< rho_index + 2]"

section \<open>init and the memory of the caller\<close>








section \<open>The parallel loop of init\<close>

text \<open>
  \<open>tbb::parallel_for(0, image.rows, 1, ...)\<close> runs the body for the rows of the image in any
  order and at the same time. The body casts the votes of its row one after the other, and
  a vote, \<open>accum.at<float>(rho_index, theta)++\<close>, is a read of the cell followed by a write of
  the value read plus one; the source has no lock and no atomic operation that would make
  the two a single step. A worker is the list of the votes it has still to cast, with the
  value it has read when it is between the read and the write of the first of them.
\<close>

type_synonym worker = "(int \<times> nat) list \<times> int option"

definition cell_offset :: "int mat \<Rightarrow> int \<times> nat \<Rightarrow> nat" where
  "cell_offset A v = nat (fst v) * cols A + snd v"

text \<open>
  The step of worker \<open>i\<close>: the read of the cell of its next vote, or the write that follows
  a read. There is no step for a worker that has finished, or whose next vote is outside
  the matrix.
\<close>

definition worker_step :: "nat \<Rightarrow> int mat \<times> worker list \<Rightarrow> (int mat \<times> worker list) option" where
  "worker_step i cfg =
     (case cfg of (A, ws) \<Rightarrow>
        if i < length ws then
          (case ws ! i of
             ([], reg) \<Rightarrow> None
           | (v # vs, None) \<Rightarrow>
               if in_range A v
               then Some (A, ws[i := (v # vs, Some (data A ! cell_offset A v))])
               else None
           | (v # vs, Some x) \<Rightarrow>
               Some (A\<lparr>data := (data A)[cell_offset A v := x + 1]\<rparr>, ws[i := (vs, None)]))
        else None)"

text \<open>A schedule is the list of the workers in the order of their steps.\<close>

fun run :: "nat list \<Rightarrow> int mat \<times> worker list \<Rightarrow> (int mat \<times> worker list) option" where
  "run [] cfg = Some cfg"
| "run (i # sched) cfg =
     (case worker_step i cfg of None \<Rightarrow> None | Some cfg' \<Rightarrow> run sched cfg')"

definition workers :: "hough \<Rightarrow> nat mat \<Rightarrow> worker list" where
  "workers h img = map (\<lambda>y. (row_votes h img y, None)) [0..<rows img]"

definition finished :: "worker list \<Rightarrow> bool" where
  "finished ws = list_all (\<lambda>w. w = ([], None)) ws"

section \<open>Concrete states and images\<close>








text \<open>
  An image of seven rows and seven columns whose only non-zero pixel is the last one, at
  \<open>x = 6\<close> and \<open>y = 6\<close>.
\<close>

definition srcK :: "nat mat" where
  "srcK = \<lparr>rows = 7, cols = 7, data = (replicate 49 0)[48 := 255]\<rparr>"

text \<open>
  An image of four rows and four columns with a vertical stroke: the pixels at \<open>x = 2\<close> and
  \<open>y = 1, 2, 3\<close> are 255, the others zero.
\<close>

definition srcV :: "nat mat" where
  "srcV = \<lparr>rows = 4, cols = 4, data = [0,0,0,0, 0,0,255,0, 0,0,255,0, 0,0,255,0]\<rparr>"

text \<open>
  For the image with the vertical stroke: the state after lines 38 to 41, the number of votes
  of every cell, and the state after \<open>init\<close>.
\<close>

definition gV :: hough where
  "gV = init_geometry ((Hough 180)\<lparr>imageSize := (cols srcV, rows srcV)\<rparr>) srcV"

definition cV :: "nat \<Rightarrow> nat \<Rightarrow> int" where
  "cV r t = (if t = 0 then (if r = 2 then 3 else 0)
             else if r = 1 then 1
             else if r = 2 then (if t = 90 then 1 else 2)
             else if r = 3 then (if t = 90 then 1 else 0)
             else 0)"

definition hV :: hough where
  "hV = gV\<lparr>accum := tally (accum gV) (image_votes gV srcV)\<rparr>"

text \<open>The accumulator of the vertical stroke, thresholded at 2.\<close>

definition tV :: "nat \<Rightarrow> nat \<Rightarrow> int" where
  "tV r t = (if r = 2 then (if t = 0 then 3 else if t = 90 then 0 else 2) else 0)"

text \<open>
  An image of five rows and five columns whose only non-zero pixel is at the centre, and the
  state after \<open>init\<close> on it: six rows, the votes all in row 3.
\<close>

definition src5 :: "nat mat" where
  "src5 = \<lparr>rows = 5, cols = 5, data = (replicate 25 0)[12 := 255]\<rparr>"

definition h5 :: hough where
  "h5 = (Hough 180)\<lparr>imageSize := (5, 5), rhoRange := 3,
                     accum := tally (MatZeros 6 180) (map (\<lambda>t. (3, t)) [0..<180]),
                     centerX := 2, centerY := 2\<rparr>"



text \<open>
  An image of two rows and two columns whose right column is 255, and the state of the
  detector after lines 38 to 41 of \<open>init\<close> on it.
\<close>

definition srcP :: "nat mat" where
  "srcP = \<lparr>rows = 2, cols = 2, data = [0, 255, 0, 255]\<rparr>"

definition gP :: hough where
  "gP = init_geometry ((Hough 180)\<lparr>imageSize := (cols srcP, rows srcP)\<rparr>) (normalize srcP)"

section \<open>Loops with failure\<close>


section \<open>The scan of getLines\<close>






text \<open>
  Claim C7. For every coordinate pair, the segment that \<open>getLines\<close> pushes for the loop
  variables \<open>(rho_index, theta)\<close> is the segment that \<open>getLine\<close> returns for the same pair
  (same formula, same conversion to integers), and so the result of \<open>getLines\<close> is
  \<open>getLine\<close> applied to each coordinate of the scan.
\<close>

theorem getLines_segment_is_getLine:
  "getLines_segment h rho_index theta = getLine h (int rho_index) (int theta)
   \<and> getLines h thresh =
       (case getLines_peaks h thresh of
          Inl e \<Rightarrow> Inl e
        | Inr found \<Rightarrow> mapE (\<lambda>(r, t). getLine h (int r) (int t)) found)"
proof -
  have eq: "\<And>r t. getLines_segment h r t = getLine h (int r) (int t)"
    by (simp add: getLines_segment_def getLine_def Let_def)
  show ?thesis by (simp add: eq getLines_def cong: sum.case_cong)
qed

section \<open>The accumulation as a fold over votes\<close>

lemma foldE_append:
  "foldE f (xs @ ys) s = (case foldE f xs s of Inl e \<Rightarrow> Inl e | Inr t \<Rightarrow> foldE f ys t)"
  by (induction xs arbitrary: s) (auto split: sum.splits)

lemma foldE_map: "foldE f (map g xs) s = foldE (\<lambda>x. f (g x)) xs s"
  by (induction xs arbitrary: s) (auto split: sum.splits)

lemma foldE_concat_map:
  "foldE f (concat (map g xs)) s = foldE (\<lambda>x. foldE f (g x)) xs s"
  by (induction xs arbitrary: s) (auto simp: foldE_append split: sum.splits)

lemma foldE_cong:
  "(\<And>x t. x \<in> set xs \<Longrightarrow> f x t = g x t) \<Longrightarrow> foldE f xs s = foldE g xs s"
  by (induction xs arbitrary: s) (auto split: sum.splits)

lemma vote_cell_incr: "vote h dx dy = (\<lambda>theta. cell_incr (rho_index_of h dx dy theta, theta))"
  by (rule ext)+ (simp add: vote_def cell_incr_def)

lemma init_pixel_votes:
  "init_pixel h img dy y x =
     foldE cell_incr (if data img ! (y * cols img + x) = 0 then []
                      else pixel_votes h (real_of_int (int x - centerX h)) dy)"
proof (rule ext)
  fix A
  show "init_pixel h img dy y x A =
     foldE cell_incr (if data img ! (y * cols img + x) = 0 then []
                      else pixel_votes h (real_of_int (int x - centerX h)) dy) A"
    by (simp add: init_pixel_def pixel_votes_def foldE_map vote_cell_incr Let_def)
qed

lemma init_row_votes: "init_row h img y = foldE cell_incr (row_votes h img y)"
proof (rule ext)
  fix A
  show "init_row h img y A = foldE cell_incr (row_votes h img y) A"
    unfolding init_row_def row_votes_def foldE_concat_map init_pixel_votes Let_def ..
qed

lemma init_accumulate_votes:
  "init_accumulate h img =
     (case foldE cell_incr (image_votes (init_geometry h img) img) (accum (init_geometry h img)) of
        Inl e \<Rightarrow> Inl e
      | Inr A \<Rightarrow> Inr ((init_geometry h img)\<lparr>accum := A\<rparr>))"
proof -
  have "init_row (init_geometry h img) img = (\<lambda>y. foldE cell_incr (row_votes (init_geometry h img) img y))"
    by (rule ext) (rule init_row_votes)
  then show ?thesis
    unfolding init_accumulate_def image_votes_def foldE_concat_map Let_def by simp
qed



lemma tally_Nil: "tally A [] = A"
  by (simp add: tally_def map_nth)

lemma cell_index:
  assumes "j < (c::nat)" and "k < r * c"
  shows "k = i * c + j \<longleftrightarrow> (k div c = i \<and> k mod c = j)"
proof
  assume "k = i * c + j"
  moreover have "0 < c" using assms(1) by simp
  ultimately show "k div c = i \<and> k mod c = j" using assms(1) by simp
next
  assume "k div c = i \<and> k mod c = j"
  then have "i * c + j = k div c * c + k mod c" by simp
  then show "k = i * c + j" by simp
qed

lemma cell_incr_tally:
  assumes "in_range A v" and "length (data A) = rows A * cols A"
  shows "cell_incr v A = Inr (tally A [v])"
proof -
  obtain i j where v: "v = (i, j)" by (cases v)
  have i: "0 \<le> i" "i < int (rows A)" and j: "j < cols A"
    using assms(1) by (simp_all add: in_range_def v)
  let ?k0 = "nat i * cols A + j"
  have "(data A)[?k0 := data A ! ?k0 + 1]
        = map (\<lambda>k. data A ! k + int (count_list [v] (int (k div cols A), k mod cols A)))
              [0..<length (data A)]"
  proof (rule nth_equalityI)
    show "length ((data A)[?k0 := data A ! ?k0 + 1]) = length (map (\<lambda>k. data A ! k + int (count_list [v] (int (k div cols A), k mod cols A))) [0..<length (data A)])"
      by simp
  next
    fix k assume "k < length ((data A)[?k0 := data A ! ?k0 + 1])"
    then have k: "k < rows A * cols A" using assms(2) by simp
    have "k = ?k0 \<longleftrightarrow> (k div cols A = nat i \<and> k mod cols A = j)"
      using cell_index[OF j k] .
    also have "\<dots> \<longleftrightarrow> (i = int (k div cols A) \<and> j = k mod cols A)"
      using i by auto
    finally have eq: "k = ?k0 \<longleftrightarrow> (i = int (k div cols A) \<and> j = k mod cols A)" .
    show "(data A)[?k0 := data A ! ?k0 + 1] ! k
          = map (\<lambda>k. data A ! k + int (count_list [v] (int (k div cols A), k mod cols A))) [0..<length (data A)] ! k"
      using k assms(2) eq by (auto simp: v nth_list_update)
  qed
  then show ?thesis
    using i j by (simp add: cell_incr_def at_incr_def v tally_def)
qed

lemma tally_dims [simp]:
  "rows (tally A vs) = rows A" "cols (tally A vs) = cols A"
  "length (data (tally A vs)) = length (data A)"
  by (simp_all add: tally_def)

lemma in_range_tally [simp]: "in_range (tally A vs) v = in_range A v"
  by (simp add: in_range_def)

lemma tally_tally: "tally (tally A us) vs = tally A (us @ vs)"
  by (simp add: tally_def int_ops cong: map_cong)

lemma foldE_cell_incr:
  assumes "\<forall>v \<in> set vs. in_range A v" and "length (data A) = rows A * cols A"
  shows "foldE cell_incr vs A = Inr (tally A vs)"
  using assms
proof (induction vs arbitrary: A)
  case Nil
  then show ?case by (simp add: tally_Nil)
next
  case (Cons v vs)
  have step: "cell_incr v A = Inr (tally A [v])"
    using Cons.prems by (intro cell_incr_tally) simp_all
  have "foldE cell_incr vs (tally A [v]) = Inr (tally (tally A [v]) vs)"
    using Cons.prems by (intro Cons.IH) simp_all
  then show ?case using step by (simp add: tally_tally)
qed

lemma cell_incr_dims:
  assumes "cell_incr v A = Inr A'"
  shows "rows A' = rows A \<and> cols A' = cols A"
  using assms by (auto simp: cell_incr_def at_incr_def split: if_splits)

lemma foldE_cell_incr_fails:
  assumes "v \<in> set vs" and "\<not> in_range A v"
  shows "foldE cell_incr vs A = Inl OutOfBounds"
  using assms
proof (induction vs arbitrary: A)
  case Nil
  then show ?case by simp
next
  case (Cons u us)
  show ?case
  proof (cases "cell_incr u A")
    case (Inl e)
    then have "e = OutOfBounds" by (auto simp: cell_incr_def at_incr_def split: if_splits)
    then show ?thesis using Inl by simp
  next
    case (Inr A')
    then have ne: "\<not> in_range A u \<Longrightarrow> False"
      by (auto simp: cell_incr_def at_incr_def in_range_def split: if_splits)
    from cell_incr_dims[OF Inr] have dims: "in_range A' v = in_range A v"
      by (simp add: in_range_def)
    have "v \<in> set us" using Cons.prems ne by auto
    then have "foldE cell_incr us A' = Inl OutOfBounds"
      using Cons.IH[of A'] Cons.prems(2) dims by simp
    then show ?thesis using Inr by simp
  qed
qed

section \<open>The tables and the line mapping\<close>

lemma sines_Hough: "theta < tm \<Longrightarrow> sines (Hough tm) ! theta = sin (theta_rad theta)"
  by (simp add: Hough_def)

lemma cosines_Hough: "theta < tm \<Longrightarrow> cosines (Hough tm) ! theta = cos (theta_rad theta)"
  by (simp add: Hough_def)

lemma sin_theta_rad_pos:
  assumes "0 < theta" and "theta < 180"
  shows "0 < sin (theta_rad theta)"
proof -
  have "0 < theta_rad theta" using assms by (simp add: theta_rad_def)
  moreover have "theta_rad theta < pi"
  proof -
    have "real theta < 180" using assms by simp
    then have "real theta * pi < 180 * pi" by simp
    then show ?thesis by (simp add: theta_rad_def)
  qed
  ultimately show ?thesis by (rule sin_gt_zero)
qed

lemma sin_theta_rad_zero_iff:
  assumes "theta < 180"
  shows "sin (theta_rad theta) = 0 \<longleftrightarrow> theta = 0"
proof (cases "theta = 0")
  case True
  then show ?thesis by (simp add: theta_rad_def)
next
  case False
  then have "0 < sin (theta_rad theta)" using assms sin_theta_rad_pos by simp
  then show ?thesis using False by simp
qed

text \<open>
  Claim C6. With the tables of the constructor and \<open>thetaMax \<le> 180\<close>, the divisor
  \<open>sines[theta]\<close> is zero exactly when \<open>theta = 0\<close>; there \<open>getLine\<close> and the line mapping
  of \<open>getLines\<close> divide by zero without a guard; for every \<open>theta\<close> in
  \<open>[1, thetaMax - 2]\<close> the sine is not zero and the division is defined.
\<close>

theorem getLine_division:
  assumes "thetaMax h \<le> 180" and "sines h = sines (Hough (thetaMax h))"
  shows "(theta < thetaMax h \<longrightarrow> (sines h ! theta = 0 \<longleftrightarrow> theta = 0))
       \<and> (0 < thetaMax h \<longrightarrow> getLine h rho_index 0 = Inl DivisionByZero
                           \<and> getLines_segment h r 0 = Inl DivisionByZero)
       \<and> (1 \<le> theta \<and> theta + 2 \<le> thetaMax h \<longrightarrow>
             sines h ! theta \<noteq> 0 \<and> (\<exists>seg. getLine h rho_index (int theta) = Inr seg))"
proof -
  have tab: "sines h ! t = sin (theta_rad t)" if "t < thetaMax h" for t
    using assms(2) sines_Hough[OF that] by simp
  have zero: "sines h ! t = 0 \<longleftrightarrow> t = 0" if "t < thetaMax h" for t
    using tab[OF that] sin_theta_rad_zero_iff[of t] that assms(1) by simp
  have b: "0 < thetaMax h \<longrightarrow> getLine h rho_index 0 = Inl DivisionByZero
                           \<and> getLines_segment h r 0 = Inl DivisionByZero"
    using zero[of 0] by (simp add: getLine_def getLines_segment_def)
  have c: "sines h ! theta \<noteq> 0 \<and> (\<exists>seg. getLine h rho_index (int theta) = Inr seg)"
    if "1 \<le> theta \<and> theta + 2 \<le> thetaMax h"
  proof -
    have lt: "theta < thetaMax h" using that by simp
    have nz: "sines h ! theta \<noteq> 0" using zero[OF lt] that by simp
    then show ?thesis using lt by (simp add: getLine_def Let_def)
  qed
  show ?thesis using zero[of theta] b c by blast
qed

theorem getLine_division_witness:
  "thetaMax (Hough 180) \<le> 180 \<and> sines (Hough 180) ! 0 = 0
   \<and> getLine (Hough 180) 3 0 = Inl DivisionByZero
   \<and> getLines_segment (Hough 180) 3 0 = Inl DivisionByZero
   \<and> sines (Hough 180) ! 45 \<noteq> 0 \<and> (\<exists>seg. getLine (Hough 180) 3 45 = Inr seg)"
proof -
  have tm: "thetaMax (Hough 180) = 180" by (simp add: Hough_def)
  have h1: "thetaMax (Hough 180) \<le> 180" by (simp add: tm)
  have h2: "sines (Hough 180) = sines (Hough (thetaMax (Hough 180)))" by (simp add: tm)
  from getLine_division[OF h1 h2, of 0 3 3] getLine_division[OF h1 h2, of 45 3 3]
  show ?thesis unfolding tm by simp
qed

lemma sqrt2_lower: "4 / 3 \<le> sqrt 2"
  by (rule real_le_rsqrt) (simp add: power2_eq_square)

lemma sqrt2_upper: "sqrt 2 < 3 / 2"
  by (rule real_less_lsqrt) (simp_all add: power2_eq_square)



section \<open>Images without votes, and the size of the accumulator\<close>



lemma normalize_dims [simp]:
  "rows (normalize src) = rows src" "cols (normalize src) = cols src"
  "length (data (normalize src)) = length (data src)"
  by (simp_all add: normalize_def split: prod.splits)





lemma init_geometry_fields [simp]:
  "rhoRange (init_geometry h img) = rhoRange_of (cols img) (rows img)"
  "rows (accum (init_geometry h img)) = nat (rhoRange_of (cols img) (rows img) * 2)"
  "cols (accum (init_geometry h img)) = thetaMax h"
  "length (data (accum (init_geometry h img))) = nat (rhoRange_of (cols img) (rows img) * 2) * thetaMax h"
  "thetaMax (init_geometry h img) = thetaMax h"
  "centerX (init_geometry h img) = int (cols img div 2)"
  "centerY (init_geometry h img) = int (rows img div 2)"
  "cosines (init_geometry h img) = cosines h"
  "sines (init_geometry h img) = sines h"
  "imageSize (init_geometry h img) = imageSize h"
  by (simp_all add: init_geometry_def MatZeros_def Let_def)









section \<open>The scan of an accumulator without a cell above the threshold\<close>


lemma scan_row_zero:
  assumes "\<forall>theta \<in> set thetas. rd d (c + int theta) = Inr 0"
  shows "scan_row d p c n thetas = Inr []"
proof -
  have "foldE (\<lambda>theta found.
              case is_local_max d p c n theta of
                Inl e \<Rightarrow> Inl e
              | Inr b \<Rightarrow> Inr (if b then found @ [theta] else found)) thetas [] = Inr []"
    using assms by (induction thetas) (simp_all add: is_local_max_def)
  then show ?thesis by (simp add: scan_row_def)
qed

lemma rd_nat: "k < length d \<Longrightarrow> rd d (int k) = Inr (d ! k)"
  by (simp add: rd_def)












section \<open>The cells of a tally, and the normalisation of an image with one pixel\<close>

lemma cell_lt:
  assumes "r < (n::nat)" and "c < m"
  shows "r * m + c < n * m"
proof -
  have "r * m + c < Suc r * m" using assms(2) by simp
  also have "\<dots> \<le> n * m" using assms(1) by (intro mult_le_mono1) simp
  finally show ?thesis .
qed

lemma tally_cell:
  assumes "r < rows A" and "c < cols A" and "length (data A) = rows A * cols A"
  shows "data (tally A vs) ! (r * cols A + c)
         = data A ! (r * cols A + c) + int (count_list vs (int r, c))"
proof -
  have lt: "r * cols A + c < length (data A)"
    using cell_lt[OF assms(1,2)] assms(3) by simp
  have "(r * cols A + c) div cols A = r" "(r * cols A + c) mod cols A = c"
    using assms(2) by simp_all
  then show ?thesis using lt by (simp add: tally_def)
qed

lemma count_list_row_votes:
  "count_list (map (\<lambda>t. (f t, t)) [0..<n]) (r, c) = (if c < n \<and> f c = r then 1 else 0)"
  by (induction n) (auto simp: less_Suc_eq)

lemma concat_map_Nil: "(\<And>x. x \<in> set xs \<Longrightarrow> g x = []) \<Longrightarrow> concat (map g xs) = []"
  by (induction xs) auto

lemma concat_map_single:
  assumes "c < n" and "\<And>x. x < n \<Longrightarrow> x \<noteq> c \<Longrightarrow> g x = []"
  shows "concat (map g [0..<n]) = g c"
proof -
  have split: "[0..<n] = [0..<c] @ c # [Suc c..<n]"
    using assms(1) by (metis le0 upt_add_eq_append upt_conv_Cons le_add_diff_inverse less_imp_le_nat)
  have a: "concat (map g [0..<c]) = []"
    using assms by (intro concat_map_Nil) auto
  have b: "concat (map g [Suc c..<n]) = []"
    using assms by (intro concat_map_Nil) auto
  show ?thesis unfolding split by (simp add: a b)
qed

lemma float_to_int_of_int [simp]: "float_to_int (real_of_int i) = i"
  by (simp add: float_to_int_def)

lemma pixel_votes_centre:
  "pixel_votes h 0 0 = map (\<lambda>t. (rhoRange h, t)) [0..<thetaMax h]"
  by (simp add: pixel_votes_def rho_index_of_def)

lemma cvRound_quot_zero: "0 < d \<Longrightarrow> cvRound_quot 0 d = 0"
  by (simp add: cvRound_quot_def)

lemma cvRound_quot_full: "0 < d \<Longrightarrow> cvRound_quot (d * 255) d = 255"
  by (simp add: cvRound_quot_def)

lemma minMax_Min_Max:
  "vs \<noteq> [] \<Longrightarrow> minMax vs = (Min (set vs), Max (set vs))"
proof (cases vs)
  case Nil
  assume "vs \<noteq> []"
  then show ?thesis using Nil by simp
next
  case (Cons a list)
  have "Min (set (a # list)) = fold min list a" by (rule Min.set_eq_fold)
  moreover have "Max (set (a # list)) = fold max list a" by (rule Max.set_eq_fold)
  ultimately show ?thesis using Cons by (simp add: minMax_def)
qed

lemma rhoRange_of_pos:
  assumes "2 \<le> max c r"
  shows "1 \<le> rhoRange_of c r"
proof -
  have "(2 * 70710678) div 100000000 \<le> (int (max c r) * 70710678) div (100000000::int)"
    using assms by (intro zdiv_mono1) simp_all
  then show ?thesis by (simp add: rhoRange_of_def)
qed


lemma normalize_single:
  assumes len: "2 \<le> length (data src)" and k0: "k0 < length (data src)"
    and centre: "data src ! k0 \<noteq> 0"
    and others: "\<forall>k < length (data src). k \<noteq> k0 \<longrightarrow> data src ! k = 0"
  shows "data (normalize src) = (replicate (length (data src)) 0)[k0 := 255]"
proof -
  let ?d = "data src" and ?v = "data src ! k0"
  have ne: "?d \<noteq> []" using len by auto
  obtain k1 where k1: "k1 < length ?d" "k1 \<noteq> k0"
    using len by (cases "k0 = 0") (auto intro: that[of 0] that[of 1])
  then have z: "?d ! k1 = 0" using others by simp
  have "0 \<in> set ?d" using z k1(1) nth_mem by fastforce
  then have mn: "Min (set ?d) = 0" by (intro Min_eqI) simp_all
  have "?v \<in> set ?d" using k0 by simp
  moreover have "u \<le> ?v" if "u \<in> set ?d" for u
  proof -
    from that obtain k where "k < length ?d" "u = ?d ! k" by (auto simp: in_set_conv_nth)
    then show ?thesis using others by (cases "k = k0") simp_all
  qed
  ultimately have mx: "Max (set ?d) = ?v" by (intro Max_eqI) simp_all
  have mm: "minMax ?d = (0, ?v)" using minMax_Min_Max[OF ne] mn mx by simp
  have pos: "0 < ?v" using centre by simp
  show ?thesis
  proof (rule nth_equalityI)
    show "length (data (normalize src)) = length ((replicate (length ?d) 0)[k0 := 255])"
      by simp
  next
    fix k assume "k < length (data (normalize src))"
    then have k: "k < length ?d" by simp
    show "data (normalize src) ! k = (replicate (length ?d) 0)[k0 := 255] ! k"
    proof (cases "k = k0")
      case True
      then show ?thesis using k pos
        by (simp add: normalize_def mm cvRound_quot_full mult.commute)
    next
      case False
      then have "?d ! k = 0" using others k by simp
      then show ?thesis using k pos False
        by (simp add: normalize_def mm cvRound_quot_zero)
    qed
  qed
qed

section \<open>The image with a single pixel, at the centre\<close>

lemma image_votes_single:
  assumes len: "length (data img) = rows img * cols img"
    and cy: "cy < rows img" and cx: "cx < cols img"
    and centre: "data img ! (cy * cols img + cx) \<noteq> 0"
    and others: "\<forall>k < length (data img). k \<noteq> cy * cols img + cx \<longrightarrow> data img ! k = 0"
  shows "image_votes h img
         = pixel_votes h (real_of_int (int cx - centerX h)) (real_of_int (int cy - centerY h))"
proof -
  have px: "data img ! (y * cols img + x) = 0"
    if "y < rows img" "x < cols img" "(y, x) \<noteq> (cy, cx)" for y x
  proof -
    have lt: "y * cols img + x < length (data img)"
      using cell_lt[OF that(1,2)] len by simp
    have "y * cols img + x \<noteq> cy * cols img + cx"
    proof
      assume e: "y * cols img + x = cy * cols img + cx"
      have "(y * cols img + x) div cols img = y" "(y * cols img + x) mod cols img = x"
        using that(2) by simp_all
      moreover have "(cy * cols img + cx) div cols img = cy" "(cy * cols img + cx) mod cols img = cx"
        using cx by simp_all
      ultimately show False using e that(3) by simp
    qed
    then show ?thesis using others lt by simp
  qed
  have other_rows: "row_votes h img y = []" if "y < rows img" "y \<noteq> cy" for y
    unfolding row_votes_def using that px by (intro concat_map_Nil) auto
  have "row_votes h img cy
        = (if data img ! (cy * cols img + cx) = 0 then []
           else pixel_votes h (real_of_int (int cx - centerX h)) (real_of_int (int cy - centerY h)))"
    unfolding row_votes_def using cx cy px by (intro concat_map_single) auto
  then have this_row: "row_votes h img cy
        = pixel_votes h (real_of_int (int cx - centerX h)) (real_of_int (int cy - centerY h))"
    using centre by simp
  have "image_votes h img = row_votes h img cy"
    unfolding image_votes_def using cy other_rows by (intro concat_map_single) auto
  then show ?thesis using this_row by simp
qed

lemma init_centre_pixel_state:
  assumes len: "length (data src) = rows src * cols src"
    and pos: "0 < rows src" "0 < cols src"
    and centre: "data src ! ((rows src div 2) * cols src + cols src div 2) \<noteq> 0"
    and others: "\<forall>k < length (data src).
                   k \<noteq> (rows src div 2) * cols src + cols src div 2 \<longrightarrow> data src ! k = 0"
    and big: "2 \<le> length (data src)"
  shows "init h src
         = Inr ((init_geometry (h\<lparr>imageSize := (cols src, rows src)\<rparr>) (normalize src))
                 \<lparr>accum := tally (accum (init_geometry (h\<lparr>imageSize := (cols src, rows src)\<rparr>)
                                                         (normalize src)))
                                 (map (\<lambda>t. (rhoRange_of (cols src) (rows src), t))
                                      [0..<thetaMax h])\<rparr>)"
    and "1 \<le> rhoRange_of (cols src) (rows src)"
proof -
  define img where "img = normalize src"
  define cy cx where "cy = rows src div 2" and "cx = cols src div 2"
  define g where "g = init_geometry (h\<lparr>imageSize := (cols src, rows src)\<rparr>) img"
  define rr where "rr = rhoRange_of (cols src) (rows src)"
  have cy: "cy < rows src" and cx: "cx < cols src" using pos by (simp_all add: cy_def cx_def)
  have k0: "cy * cols src + cx < length (data src)" using cell_lt[OF cy cx] len by simp
  have nd: "data img = (replicate (length (data src)) 0)[cy * cols src + cx := 255]"
    unfolding img_def using big k0 centre others
    by (intro normalize_single) (simp_all add: cy_def cx_def)
  have dims: "rows img = rows src" "cols img = cols src" by (simp_all add: img_def)
  have geo: "rhoRange g = rr" "centerX g = int cx" "centerY g = int cy" "thetaMax g = thetaMax h"
      "rows (accum g) = nat (rr * 2)" "cols (accum g) = thetaMax h"
      "length (data (accum g)) = nat (rr * 2) * thetaMax h"
    by (simp_all add: g_def dims rr_def cx_def cy_def)
  have "max (cols src) (rows src) \<noteq> 0 \<and> max (cols src) (rows src) \<noteq> 1"
    using big len pos by (auto simp: max_def)
  then have "2 \<le> max (cols src) (rows src)" by linarith
  then have rr1: "1 \<le> rr" unfolding rr_def by (rule rhoRange_of_pos)
  have votes: "image_votes g img = map (\<lambda>t. (rr, t)) [0..<thetaMax h]"
  proof -
    have "image_votes g img
          = pixel_votes g (real_of_int (int cx - centerX g)) (real_of_int (int cy - centerY g))"
      using len cy cx k0 by (intro image_votes_single) (simp_all add: dims nd)
    then show ?thesis by (simp add: geo pixel_votes_centre)
  qed
  have inr: "\<forall>v \<in> set (image_votes g img). in_range (accum g) v"
    using rr1 by (auto simp: votes in_range_def geo)
  have "foldE cell_incr (image_votes g img) (accum g) = Inr (tally (accum g) (image_votes g img))"
    using inr by (intro foldE_cell_incr) (simp_all add: geo)
  then have "init h src = Inr (g\<lparr>accum := tally (accum g) (image_votes g img)\<rparr>)"
    by (simp add: init_def init_accumulate_votes img_def[symmetric] g_def[symmetric])
  then have "init h src = Inr (g\<lparr>accum := tally (accum g) (map (\<lambda>t. (rr, t)) [0..<thetaMax h])\<rparr>)"
    by (simp only: votes)
  then show "init h src
         = Inr ((init_geometry (h\<lparr>imageSize := (cols src, rows src)\<rparr>) (normalize src))
                 \<lparr>accum := tally (accum (init_geometry (h\<lparr>imageSize := (cols src, rows src)\<rparr>)
                                                         (normalize src)))
                                 (map (\<lambda>t. (rhoRange_of (cols src) (rows src), t))
                                      [0..<thetaMax h])\<rparr>)"
    unfolding g_def img_def rr_def .
  show "1 \<le> rhoRange_of (cols src) (rows src)" using rr1 by (simp add: rr_def)
qed

lemma centre_row_cell:
  assumes "r < nat (rr * 2)" and "t < tm"
  shows "data (tally (MatZeros (nat (rr * 2)) tm) (map (\<lambda>t. (rr, t)) [0..<tm])) ! (r * tm + t)
         = (if int r = rr then 1 else 0)"
proof -
  let ?A = "MatZeros (nat (rr * 2)) tm"
  have d: "rows ?A = nat (rr * 2)" "cols ?A = tm" "length (data ?A) = nat (rr * 2) * tm"
    by (simp_all add: MatZeros_def)
  have "r * tm + t < nat (rr * 2) * tm" using cell_lt[OF assms] .
  then have z: "data ?A ! (r * tm + t) = 0" by (simp add: MatZeros_def)
  have "data (tally ?A (map (\<lambda>t. (rr, t)) [0..<tm])) ! (r * cols ?A + t)
        = data ?A ! (r * cols ?A + t) + int (count_list (map (\<lambda>t. (rr, t)) [0..<tm]) (int r, t))"
    using assms by (intro tally_cell) (simp_all add: d)
  then show ?thesis using z assms(2) by (auto simp: d count_list_row_votes)
qed



section \<open>A pixel in the corner of an image of odd size\<close>

lemma theta_rad_45: "theta_rad 45 = pi / 4"
  by (simp add: theta_rad_def)

lemma float_to_int_corner: "float_to_int (4 + 3 * sqrt 2) = 8"
proof -
  have "0 \<le> 4 + 3 * sqrt 2" by simp
  moreover have "\<lfloor>4 + 3 * sqrt 2\<rfloor> = 8"
    using sqrt2_lower sqrt2_upper by (intro floor_unique) simp_all
  ultimately show ?thesis by (simp add: float_to_int_def)
qed

lemma srcK_facts:
  "length (data srcK) = rows srcK * cols srcK" "rows srcK = 7" "cols srcK = 7"
  "data srcK ! 48 = 255" "\<forall>k < length (data srcK). k \<noteq> 48 \<longrightarrow> data srcK ! k = 0"
  by (simp_all add: srcK_def)

lemma normalize_srcK: "data (normalize srcK) = data srcK"
proof -
  have "data (normalize srcK) = (replicate (length (data srcK)) 0)[48 := 255]"
    by (rule normalize_single) (simp_all add: srcK_def)
  then show ?thesis by (simp add: srcK_def)
qed

lemma rho_index_corner_robust:
  assumes "rhoRange h = 4"
    and "\<bar>cosines h ! 45 - sqrt 2 / 2\<bar> \<le> 1 / 50" and "\<bar>sines h ! 45 - sqrt 2 / 2\<bar> \<le> 1 / 50"
  shows "rho_index_of h 3 3 45 = 8"
proof -
  let ?v = "4 + (3 * cosines h ! 45 + 3 * sines h ! 45)"
  have l: "141 / 100 \<le> sqrt 2"
    by (rule real_le_rsqrt) (simp add: power2_eq_square)
  have "8 \<le> ?v" "?v < 9"
    using assms(2,3) l sqrt2_upper by linarith+
  then have "0 \<le> ?v" "\<lfloor>?v\<rfloor> = 8" by (simp_all add: floor_unique)
  then show ?thesis by (simp add: rho_index_of_def assms(1) float_to_int_def)
qed

text \<open>
  Claim C2 at a failing input. For the 7 by 7 image whose only non-zero pixel is at
  \<open>(x, y) = (6, 6)\<close>, \<open>rhoRange\<close> is 4 and the histogram has 8 rows, and at \<open>theta = 45\<close>
  the computed \<open>rho_index\<close> is 8: the increment of line 59 is outside the histogram. (By
  the lemma before, any table within 0.02 of the cosine and sine of 45 degrees gives the same
  index, so the rounding of the \<open>float\<close> operations does not change it.)
\<close>

theorem init_corner_pixel_out_of_bounds:
  "rho_index_of (init_geometry ((Hough 180)\<lparr>imageSize := (7, 7)\<rparr>) (normalize srcK)) 3 3 45 = 8
   \<and> 2 * rhoRange (init_geometry ((Hough 180)\<lparr>imageSize := (7, 7)\<rparr>) (normalize srcK)) = 8
   \<and> rows (accum (init_geometry ((Hough 180)\<lparr>imageSize := (7, 7)\<rparr>) (normalize srcK))) = 8
   \<and> init (Hough 180) srcK = Inl OutOfBounds"
proof -
  define img where "img = normalize srcK"
  define g where "g = init_geometry ((Hough 180)\<lparr>imageSize := (7, 7)\<rparr>) img"
  have dims: "rows img = 7" "cols img = 7" "length (data img) = 49" "data img = data srcK"
    by (simp_all add: img_def srcK_facts normalize_srcK)
  have geo: "rhoRange g = 4" "centerX g = 3" "centerY g = 3" "thetaMax g = 180"
      "rows (accum g) = 8" "cols (accum g) = 180"
    by (simp_all add: g_def dims rhoRange_of_def Hough_def)
  have tab: "cosines g ! 45 = sqrt 2 / 2" "sines g ! 45 = sqrt 2 / 2"
    by (simp_all add: g_def cosines_Hough sines_Hough theta_rad_45 cos_45 sin_45)
  have idx: "rho_index_of g 3 3 45 = 8"
    by (simp add: rho_index_of_def geo tab float_to_int_corner)
  have "image_votes g img
        = pixel_votes g (real_of_int (int 6 - centerX g)) (real_of_int (int 6 - centerY g))"
    using srcK_facts(5) by (intro image_votes_single) (simp_all add: dims srcK_facts)
  then have votes: "image_votes g img = pixel_votes g 3 3" by (simp add: geo)
  have mem: "(rho_index_of g 3 3 45, 45) \<in> set (image_votes g img)"
    unfolding votes pixel_votes_def geo set_map by (rule image_eqI[where x = 45]) simp_all
  have "\<not> in_range (accum g) (rho_index_of g 3 3 45, 45)"
    by (simp add: in_range_def idx geo)
  with mem have "foldE cell_incr (image_votes g img) (accum g) = Inl OutOfBounds"
    by (rule foldE_cell_incr_fails)
  then have "init (Hough 180) srcK = Inl OutOfBounds"
    by (simp add: init_def init_accumulate_votes img_def[symmetric] g_def[symmetric] srcK_facts)
  then show ?thesis using idx geo unfolding g_def img_def by simp
qed

section \<open>The accumulator of a vertical stroke\<close>

lemma theta_rad_bounds:
  assumes "theta < 180"
  shows "0 \<le> theta_rad theta" "theta_rad theta < pi"
proof -
  show "0 \<le> theta_rad theta" by (simp add: theta_rad_def)
  have "real theta < 180" using assms by simp
  then have "real theta * pi < 180 * pi" by simp
  then show "theta_rad theta < pi" by (simp add: theta_rad_def)
qed

lemma theta_rad_90: "theta_rad 90 = pi / 2"
  by (simp add: theta_rad_def)

lemma sin_theta_rad_lt_1:
  assumes "theta < 180" and "theta \<noteq> 90"
  shows "sin (theta_rad theta) < 1"
proof (cases "theta < 90")
  case True
  then have "real theta * pi < 90 * pi" by simp
  then have lt: "theta_rad theta < pi / 2" by (simp add: theta_rad_def)
  have "sin (theta_rad theta) < sin (pi / 2)"
    using lt theta_rad_bounds(1)[OF assms(1)]
    by (subst sin_mono_less_eq) (simp_all add: less_imp_le)
  then show ?thesis by simp
next
  case False
  then have "90 < theta" using assms(2) by simp
  then have "90 * pi < real theta * pi" by simp
  then have gt: "pi / 2 < theta_rad theta" by (simp add: theta_rad_def)
  have "sin (pi - theta_rad theta) < sin (pi / 2)"
    using gt theta_rad_bounds(2)[OF assms(1)]
    by (subst sin_mono_less_eq) simp_all
  then show ?thesis by simp
qed

lemma srcV_normalize: "normalize srcV = srcV"
  by (simp add: normalize_def minMax_def srcV_def cvRound_quot_def)

lemma float_to_int_numeral [simp]: "float_to_int (numeral n) = numeral n"
  by (simp add: float_to_int_def)

lemma gV_fields:
  "rhoRange gV = 2" "centerX gV = 2" "centerY gV = 2" "thetaMax gV = 180"
  "rows (accum gV) = 4" "cols (accum gV) = 180" "length (data (accum gV)) = 4 * 180"
  by (simp_all add: gV_def rhoRange_of_def srcV_def Hough_def)

lemma gV_tables:
  "theta < 180 \<Longrightarrow> cosines gV ! theta = cos (theta_rad theta)"
  "theta < 180 \<Longrightarrow> sines gV ! theta = sin (theta_rad theta)"
  by (simp_all add: gV_def cosines_Hough sines_Hough)

lemma gV_votes:
  "image_votes gV srcV = pixel_votes gV 0 (- 1) @ pixel_votes gV 0 0 @ pixel_votes gV 0 1"
  by (simp add: image_votes_def row_votes_def gV_fields srcV_def upt_rec)

lemma gV_index_up:
  assumes "theta < 180"
  shows "rho_index_of gV 0 (- 1) theta = (if theta = 0 then 2 else 1)"
proof (cases "theta = 0")
  case True
  then show ?thesis by (simp add: rho_index_of_def gV_fields gV_tables theta_rad_def)
next
  case False
  then have "0 < sin (theta_rad theta)" using assms sin_theta_rad_pos by simp
  moreover have "sin (theta_rad theta) \<le> 1" by simp
  ultimately have "0 \<le> 2 - sin (theta_rad theta)" "\<lfloor>2 - sin (theta_rad theta)\<rfloor> = 1"
    by (linarith, intro floor_unique, simp_all)
  then show ?thesis using False assms
    by (simp add: rho_index_of_def gV_fields gV_tables float_to_int_def)
qed

lemma gV_index_down:
  assumes "theta < 180"
  shows "rho_index_of gV 0 1 theta = (if theta = 90 then 3 else 2)"
proof (cases "theta = 90")
  case True
  then show ?thesis by (simp add: rho_index_of_def gV_fields gV_tables theta_rad_90)
next
  case False
  then have "sin (theta_rad theta) < 1" using assms sin_theta_rad_lt_1 by simp
  moreover have "0 \<le> sin (theta_rad theta)"
    using sin_theta_rad_pos[of theta] assms by (cases "theta = 0") (simp_all add: theta_rad_def)
  ultimately have "0 \<le> 2 + sin (theta_rad theta)" "\<lfloor>2 + sin (theta_rad theta)\<rfloor> = 2"
    by (simp_all add: floor_unique)
  then show ?thesis using False assms
    by (simp add: rho_index_of_def gV_fields gV_tables float_to_int_def)
qed

lemma gV_index_centre: "rho_index_of gV 0 0 theta = 2"
  by (simp add: rho_index_of_def gV_fields)

lemma gV_count:
  assumes "t < 180"
  shows "int (count_list (image_votes gV srcV) (int r, t)) = cV r t"
proof -
  have "count_list (pixel_votes gV 0 (- 1)) (int r, t) = (if rho_index_of gV 0 (- 1) t = int r then 1 else 0)"
       "count_list (pixel_votes gV 0 0) (int r, t) = (if rho_index_of gV 0 0 t = int r then 1 else 0)"
       "count_list (pixel_votes gV 0 1) (int r, t) = (if rho_index_of gV 0 1 t = int r then 1 else 0)"
    using assms by (simp_all add: pixel_votes_def count_list_row_votes gV_fields)
  then show ?thesis
    using assms by (auto simp: gV_votes gV_index_up gV_index_down gV_index_centre cV_def)
qed

lemma gV_in_range: "\<forall>v \<in> set (image_votes gV srcV). in_range (accum gV) v"
proof -
  have "in_range (accum gV) (rho_index_of gV 0 (- 1) t, t)"
       "in_range (accum gV) (rho_index_of gV 0 0 t, t)"
       "in_range (accum gV) (rho_index_of gV 0 1 t, t)" if "t < 180" for t
    using that gV_index_centre by (simp_all add: gV_index_up gV_index_down in_range_def gV_fields)
  then show ?thesis by (auto simp: gV_votes pixel_votes_def gV_fields)
qed

lemma init_srcV: "init (Hough 180) srcV = Inr hV"
proof -
  have "foldE cell_incr (image_votes gV srcV) (accum gV) = Inr (tally (accum gV) (image_votes gV srcV))"
    using gV_in_range by (intro foldE_cell_incr) (simp_all add: gV_fields)
  then show ?thesis
    by (simp add: init_def init_accumulate_votes srcV_normalize gV_def[symmetric] hV_def)
qed

lemma hV_cell:
  assumes "r < 4" and "t < 180"
  shows "data (accum hV) ! (r * 180 + t) = cV r t"
proof -
  have lt: "r * 180 + t < 4 * 180" using cell_lt[OF assms] .
  have z: "data (accum gV) ! (r * 180 + t) = 0"
    using lt by (simp add: gV_def init_geometry_def MatZeros_def Let_def rhoRange_of_def srcV_def Hough_def)
  have "data (tally (accum gV) (image_votes gV srcV)) ! (r * cols (accum gV) + t)
        = data (accum gV) ! (r * cols (accum gV) + t) + int (count_list (image_votes gV srcV) (int r, t))"
    using assms by (intro tally_cell) (simp_all add: gV_fields)
  then show ?thesis using z assms(2) by (simp add: hV_def gV_fields gV_count)
qed

section \<open>The scan of the accumulator of the vertical stroke\<close>

lemma scan_row_none:
  assumes "\<forall>theta \<in> set thetas. is_local_max d p c n theta = Inr False"
  shows "scan_row d p c n thetas = Inr []"
proof -
  have "foldE (\<lambda>theta found.
              case is_local_max d p c n theta of
                Inl e \<Rightarrow> Inl e
              | Inr b \<Rightarrow> Inr (if b then found @ [theta] else found)) thetas [] = Inr []"
    using assms by (induction thetas) simp_all
  then show ?thesis by (simp add: scan_row_def)
qed

lemma TV_dims:
  "rows (thresholded (accum hV) 2) = 4" "cols (thresholded (accum hV) 2) = 180"
  "length (data (thresholded (accum hV) 2)) = 720"
  by (simp_all add: thresholded_def hV_def gV_fields)

lemma TV_cell:
  assumes "r < 4" and "t < 180"
  shows "data (thresholded (accum hV) 2) ! (r * 180 + t) = tV r t"
proof -
  have "r * 180 + t < 4 * 180" using cell_lt[OF assms] .
  then have "r * 180 + t < length (data (accum hV))" by (simp add: hV_def gV_fields)
  then have "data (thresholded (accum hV) 2) ! (r * 180 + t)
             = (if 2 \<le> cV r t then cV r t else 0)"
    using hV_cell[OF assms] by (simp add: thresholded_def)
  then show ?thesis using assms by (auto simp: cV_def tV_def)
qed

lemma TV_rd:
  assumes "r < 4" and "t < 180"
  shows "rd (data (thresholded (accum hV) 2)) (int (r * 180 + t)) = Inr (tV r t)"
proof -
  have "r * 180 + t < 4 * 180" using cell_lt[OF assms] .
  then have "r * 180 + t < length (data (thresholded (accum hV) 2))" by (simp add: TV_dims)
  from rd_nat[OF this] show ?thesis using TV_cell[OF assms] by simp
qed

lemma TV_reads:
  "rd (data (thresholded (accum hV) 2)) 179 = Inr 0"
  "rd (data (thresholded (accum hV) 2)) 359 = Inr 0"
  "rd (data (thresholded (accum hV) 2)) 180 = Inr 0"
  "rd (data (thresholded (accum hV) 2)) 360 = Inr 3"
  "rd (data (thresholded (accum hV) 2)) 181 = Inr 0"
  "rd (data (thresholded (accum hV) 2)) 361 = Inr 2"
  using TV_rd[of 0 179] TV_rd[of 1 179] TV_rd[of 1 0] TV_rd[of 2 0] TV_rd[of 1 1] TV_rd[of 2 1]
  by (simp_all add: tV_def)

lemma TV_row1:
  assumes "theta < 180"
  shows "rd (data (thresholded (accum hV) 2)) (180 + int theta) = Inr 0"
  using TV_rd[of 1 theta] assms by (simp add: tV_def)

lemma TV_row2:
  assumes "theta < 180"
  shows "rd (data (thresholded (accum hV) 2)) (360 + int theta) = Inr (tV 2 theta)"
  using TV_rd[of 2 theta] assms by simp

lemma TV_not_local_max:
  assumes "1 \<le> theta" and "theta < 180"
  shows "is_local_max (data (thresholded (accum hV) 2)) 180 360 360 theta = Inr False"
  using assms by (simp add: is_local_max_def TV_row2 TV_reads tV_def MAX_macro_def)

lemma hV_peaks: "getLines_peaks hV 2 = Inr []"
proof -
  let ?T = "thresholded (accum hV) 2"
  have tm: "thetaMax hV = 180" by (simp add: hV_def gV_fields)
  have s1: "scan_row (data ?T) 0 180 360 [1..<180 - 1] = Inr []"
    by (rule scan_row_zero) (simp add: TV_row1)
  have s2: "scan_row (data ?T) 180 360 360 [1..<180 - 1] = Inr []"
    by (rule scan_row_none) (simp add: TV_not_local_max)
  have l: "[1..<rows ?T - 1] = [1, 2]" by (simp add: TV_dims upt_rec)
  have p: "ptr ?T 0 = 0" "ptr ?T 1 = 180" "ptr ?T 2 = 360" "ptr ?T (1 + 1) = 360"
      "ptr ?T (2 + 1) = 540"
    by (simp_all add: ptr_def TV_dims)
  have st1: "getLines_step ?T 180 1 (0, 180, 360, []) = Inr (180, 360, 360, [])"
    unfolding getLines_step_def by (simp only: s1 p prod.case sum.case list.map append_Nil)
  have st2: "getLines_step ?T 180 2 (180, 360, 360, []) = Inr (360, 360, 540, [])"
    unfolding getLines_step_def by (simp only: s2 p prod.case sum.case list.map append_Nil)
  have run: "foldE (getLines_step ?T 180) [1..<rows ?T - 1] (ptr ?T 0, ptr ?T 1, ptr ?T 2, [])
             = Inr (360, 360, 540, [])"
    unfolding l p by (simp only: foldE.simps st1 st2 sum.case)
  have "\<not> (2::int) < 1" by simp
  then show ?thesis
    unfolding getLines_peaks_def Let_def tm by (simp only: run if_False sum.case prod.case)
qed

lemma hV_spec_peak: "spec_is_peak (thresholded (accum hV) 2) 2 45"
proof -
  have c: "cell (thresholded (accum hV) 2) r t = tV r t" if "r < 4" "t < 180" for r t
    using TV_cell[OF that] by (simp add: cell_def TV_dims)
  have "cell (thresholded (accum hV) 2) 2 45 = 2" using c[of 2 45] by (simp add: tV_def)
  moreover have "cell (thresholded (accum hV) 2) r t \<le> 2"
    if "r \<in> set [2 - 1..<2 + 2]" "t \<in> set [45 - 1..<45 + 2]" for r t
    using that c[of r t] by (auto simp: tV_def)
  ultimately show ?thesis unfolding spec_is_peak_def list_all_iff by fastforce
qed

section \<open>The scan of the accumulator of a single pixel, and the peak test\<close>

lemma scan_row_all:
  assumes "\<forall>theta \<in> set thetas. is_local_max d p c n theta = Inr True"
  shows "scan_row d p c n thetas = Inr thetas"
proof -
  have "foldE (\<lambda>theta found.
              case is_local_max d p c n theta of
                Inl e \<Rightarrow> Inl e
              | Inr b \<Rightarrow> Inr (if b then found @ [theta] else found)) thetas acc
        = Inr (acc @ thetas)" for acc
    using assms by (induction thetas arbitrary: acc) simp_all
  from this[of "[]"] show ?thesis by (simp add: scan_row_def)
qed

lemma init_src5: "init (Hough 180) src5 = Inr h5"
proof -
  have "init (Hough 180) src5
         = Inr ((init_geometry ((Hough 180)\<lparr>imageSize := (cols src5, rows src5)\<rparr>) (normalize src5))
                 \<lparr>accum := tally (accum (init_geometry ((Hough 180)\<lparr>imageSize := (cols src5, rows src5)\<rparr>)
                                                         (normalize src5)))
                                 (map (\<lambda>t. (rhoRange_of (cols src5) (rows src5), t))
                                      [0..<thetaMax (Hough 180)])\<rparr>)"
    by (rule init_centre_pixel_state(1)) (simp_all add: src5_def)
  then show ?thesis
    by (simp add: init_geometry_def rhoRange_of_def Let_def src5_def h5_def Hough_def)
qed

lemma T5_dims:
  "rows (thresholded (accum h5) 1) = 6" "cols (thresholded (accum h5) 1) = 180"
  "length (data (thresholded (accum h5) 1)) = 1080" "thetaMax h5 = 180"
  by (simp_all add: thresholded_def h5_def MatZeros_def Hough_def)

lemma T5_cell:
  assumes "r < 6" and "t < 180"
  shows "data (thresholded (accum h5) 1) ! (r * 180 + t) = (if r = 3 then 1 else 0)"
proof -
  have "r * 180 + t < 6 * 180" using cell_lt[OF assms] .
  then have lt: "r * 180 + t < length (data (accum h5))" by (simp add: h5_def MatZeros_def)
  have "data (accum h5) ! (r * 180 + t) = (if int r = 3 then 1 else 0)"
    using centre_row_cell[of r 3 t 180] assms by (simp add: h5_def)
  then show ?thesis using lt by (cases "r = 3") (simp_all add: thresholded_def)
qed

lemma T5_rd:
  assumes "r < 6" and "t < 180"
  shows "rd (data (thresholded (accum h5) 1)) (int (r * 180 + t)) = Inr (if r = 3 then 1 else 0)"
proof -
  have "r * 180 + t < 6 * 180" using cell_lt[OF assms] .
  then have "r * 180 + t < length (data (thresholded (accum h5) 1))" by (simp add: T5_dims)
  from rd_nat[OF this] show ?thesis using T5_cell[OF assms] by simp
qed

lemma T5_reads:
  "rd (data (thresholded (accum h5) 1)) 359 = Inr 0"
  "rd (data (thresholded (accum h5) 1)) 539 = Inr 0"
  "rd (data (thresholded (accum h5) 1)) 719 = Inr 1"
  "rd (data (thresholded (accum h5) 1)) 360 = Inr 0"
  "rd (data (thresholded (accum h5) 1)) 540 = Inr 1"
  "rd (data (thresholded (accum h5) 1)) 720 = Inr 0"
  "rd (data (thresholded (accum h5) 1)) 361 = Inr 0"
  "rd (data (thresholded (accum h5) 1)) 541 = Inr 1"
  "rd (data (thresholded (accum h5) 1)) 721 = Inr 0"
  using T5_rd[of 1 179] T5_rd[of 2 179] T5_rd[of 3 179] T5_rd[of 2 0] T5_rd[of 3 0] T5_rd[of 4 0]
    T5_rd[of 2 1] T5_rd[of 3 1] T5_rd[of 4 1]
  by simp_all

lemma T5_row:
  assumes "theta < 180"
  shows "rd (data (thresholded (accum h5) 1)) (180 + int theta) = Inr 0"
    and "rd (data (thresholded (accum h5) 1)) (360 + int theta) = Inr 0"
    and "rd (data (thresholded (accum h5) 1)) (540 + int theta) = Inr 1"
  using T5_rd[of 1 theta] T5_rd[of 2 theta] T5_rd[of 3 theta] assms by simp_all

lemma T5_local_max:
  assumes "theta < 180"
  shows "is_local_max (data (thresholded (accum h5) 1)) 360 540 720 theta = Inr True"
  using assms by (simp add: is_local_max_def T5_row T5_reads MAX_macro_def)

lemma h5_peaks: "getLines_peaks h5 1 = Inr (map (\<lambda>theta. (4, theta)) [1..<179])"
proof -
  let ?T = "thresholded (accum h5) 1"
  have s1: "scan_row (data ?T) 0 180 360 [1..<180 - 1] = Inr []"
    by (rule scan_row_zero) (simp add: T5_row)
  have s2: "scan_row (data ?T) 180 360 360 [1..<180 - 1] = Inr []"
    by (rule scan_row_zero) (simp add: T5_row)
  have s3: "scan_row (data ?T) 360 360 540 [1..<180 - 1] = Inr []"
    by (rule scan_row_zero) (simp add: T5_row)
  have s4: "scan_row (data ?T) 360 540 720 [1..<180 - 1] = Inr [1..<180 - 1]"
    by (rule scan_row_all) (simp add: T5_local_max)
  have l: "[1..<rows ?T - 1] = [1, 2, 3, 4]" by (simp add: T5_dims upt_rec)
  have p: "ptr ?T 0 = 0" "ptr ?T 1 = 180" "ptr ?T 2 = 360" "ptr ?T (1 + 1) = 360"
      "ptr ?T (2 + 1) = 540" "ptr ?T (3 + 1) = 720" "ptr ?T (4 + 1) = 900"
    by (simp_all add: ptr_def T5_dims)
  have st1: "getLines_step ?T 180 1 (0, 180, 360, []) = Inr (180, 360, 360, [])"
    unfolding getLines_step_def by (simp only: s1 p prod.case sum.case list.map append_Nil)
  have st2: "getLines_step ?T 180 2 (180, 360, 360, []) = Inr (360, 360, 540, [])"
    unfolding getLines_step_def by (simp only: s2 p prod.case sum.case list.map append_Nil)
  have st3: "getLines_step ?T 180 3 (360, 360, 540, []) = Inr (360, 540, 720, [])"
    unfolding getLines_step_def by (simp only: s3 p prod.case sum.case list.map append_Nil)
  have st4: "getLines_step ?T 180 4 (360, 540, 720, [])
             = Inr (540, 720, 900, map (\<lambda>theta. (4, theta)) [1..<180 - 1])"
    unfolding getLines_step_def by (simp only: s4 p prod.case sum.case append_Nil)
  have run: "foldE (getLines_step ?T 180) [1..<rows ?T - 1] (ptr ?T 0, ptr ?T 1, ptr ?T 2, [])
             = Inr (540, 720, 900, map (\<lambda>theta. (4, theta)) [1..<180 - 1])"
    unfolding l p by (simp only: foldE.simps st1 st2 st3 st4 sum.case)
  have "\<not> (1::int) < 1" by simp
  then have "getLines_peaks h5 1 = Inr (map (\<lambda>theta. (4, theta)) [1..<180 - 1])"
    unfolding getLines_peaks_def Let_def T5_dims(4) by (simp only: run if_False sum.case prod.case)
  then show ?thesis by simp
qed

lemma h5_spec_peak:
  "spec_is_peak (thresholded (accum h5) 1) 3 45" "\<not> spec_is_peak (thresholded (accum h5) 1) 4 45"
proof -
  have c: "cell (thresholded (accum h5) 1) r t = (if r = 3 then 1 else 0)" if "r < 6" "t < 180" for r t
    using T5_cell[OF that] by (simp add: cell_def T5_dims)
  have "cell (thresholded (accum h5) 1) 3 45 = 1" using c[of 3 45] by simp
  moreover have "cell (thresholded (accum h5) 1) r t \<le> 1"
    if "r \<in> set [3 - 1..<3 + 2]" "t \<in> set [45 - 1..<45 + 2]" for r t
    using that c[of r t] by auto
  ultimately show "spec_is_peak (thresholded (accum h5) 1) 3 45"
    unfolding spec_is_peak_def list_all_iff by fastforce
  show "\<not> spec_is_peak (thresholded (accum h5) 1) 4 45"
    using c[of 4 45] by (simp add: spec_is_peak_def)
qed

text \<open>
  Claim C1 at two failing inputs. The claim says that \<open>getLines\<close> pushes a segment for
  \<open>(rho_index, theta)\<close> exactly when the thresholded cell there is not zero and no cell of
  the 3 by 3 neighbourhood centred on it is greater (\<open>spec_is_peak\<close>).

  For the 4 by 4 image with the vertical stroke and the threshold 2, the cell \<open>(2, 45)\<close>
  passes that test, and \<open>getLines\<close> pushes nothing: the loop of lines 116 to 120 reads
  \<open>prev_row[x]\<close>, \<open>curr_row[x]\<close>, \<open>next_row[x]\<close> for \<open>x = -1, 0, 1\<close>, the columns at the
  start of the rows and not those around \<open>theta\<close>, and finds the 3 of the cell \<open>(2, 0)\<close>.

  For the 5 by 5 image with one pixel at the centre and the threshold 1, the cell \<open>(3, 45)\<close>
  passes the test and the cell \<open>(4, 45)\<close> does not, and \<open>getLines\<close> pushes segments for
  \<open>rho_index = 4\<close> only: line 144 sets \<open>next_row\<close> to the row \<open>rho_index + 1\<close> before
  \<open>rho_index\<close> is incremented, so from \<open>rho_index = 3\<close> on \<open>curr_row\<close> is the row
  \<open>rho_index - 1\<close>.
\<close>

theorem getLines_differs_from_peak_test:
  "init (Hough 180) srcV = Inr hV
   \<and> getLines_peaks hV 2 = Inr []
   \<and> spec_is_peak (thresholded (accum hV) 2) 2 45
   \<and> init (Hough 180) src5 = Inr h5
   \<and> getLines_peaks h5 1 = Inr (map (\<lambda>theta. (4, theta)) [1..<179])
   \<and> spec_is_peak (thresholded (accum h5) 1) 3 45
   \<and> \<not> spec_is_peak (thresholded (accum h5) 1) 4 45"
  using init_srcV hV_peaks hV_spec_peak init_src5 h5_peaks h5_spec_peak by simp

section \<open>The memory of the caller\<close>






section \<open>Schedules of the parallel loop\<close>

lemma run_append:
  "run (xs @ ys) cfg = (case run xs cfg of None \<Rightarrow> None | Some cfg' \<Rightarrow> run ys cfg')"
  by (induction xs arbitrary: cfg) (auto split: option.splits)

lemma tally_single:
  assumes "in_range A v" and "length (data A) = rows A * cols A"
  shows "A\<lparr>data := (data A)[cell_offset A v := data A ! cell_offset A v + 1]\<rparr> = tally A [v]"
proof -
  have "cell_incr v A = Inr (A\<lparr>data := (data A)[cell_offset A v := data A ! cell_offset A v + 1]\<rparr>)"
    using assms(1) by (simp add: cell_incr_def at_incr_def in_range_def cell_offset_def)
  moreover have "cell_incr v A = Inr (tally A [v])" using assms by (rule cell_incr_tally)
  ultimately show ?thesis by simp
qed

lemma worker_read:
  assumes "i < length ws" and "ws ! i = (v # vs, None)" and "in_range A v"
  shows "worker_step i (A, ws) = Some (A, ws[i := (v # vs, Some (data A ! cell_offset A v))])"
  using assms by (simp add: worker_step_def)

lemma worker_write:
  assumes "i < length ws" and "ws ! i = (v # vs, Some x)"
  shows "worker_step i (A, ws)
         = Some (A\<lparr>data := (data A)[cell_offset A v := x + 1]\<rparr>, ws[i := (vs, None)])"
  using assms by (simp add: worker_step_def)

lemma worker_alone:
  assumes "\<forall>v \<in> set vs. in_range A v" and "length (data A) = rows A * cols A"
    and "i < length ws" and "ws ! i = (vs, None)"
  shows "run (replicate (2 * length vs) i) (A, ws) = Some (tally A vs, ws[i := ([], None)])"
  using assms
proof (induction vs arbitrary: A ws)
  case Nil
  then have "ws[i := ([], None)] = ws" by (metis list_update_id)
  then show ?case by (simp add: tally_Nil)
next
  case (Cons v vs)
  let ?x = "data A ! cell_offset A v"
  let ?ws1 = "ws[i := (v # vs, Some ?x)]"
  have inr: "in_range A v" using Cons.prems(1) by simp
  have s1: "worker_step i (A, ws) = Some (A, ?ws1)"
    using Cons.prems(3,4) inr by (rule worker_read)
  have "worker_step i (A, ?ws1)
          = Some (A\<lparr>data := (data A)[cell_offset A v := ?x + 1]\<rparr>, ?ws1[i := (vs, None)])"
    using Cons.prems(3) by (intro worker_write) simp_all
  then have s2: "worker_step i (A, ?ws1) = Some (tally A [v], ws[i := (vs, None)])"
    using tally_single[OF inr Cons.prems(2)] by simp
  have "run (replicate (2 * length vs) i) (tally A [v], ws[i := (vs, None)])
          = Some (tally (tally A [v]) vs, (ws[i := (vs, None)])[i := ([], None)])"
    using Cons.prems by (intro Cons.IH) simp_all
  then have s3: "run (replicate (2 * length vs) i) (tally A [v], ws[i := (vs, None)])
          = Some (tally A (v # vs), ws[i := ([], None)])"
    by (simp add: tally_tally)
  have "replicate (2 * length (v # vs)) i = i # i # replicate (2 * length vs) i" by simp
  then show ?case using s1 s2 s3 by simp
qed

lemma lost_update:
  assumes ok0: "\<forall>u \<in> set (v # vs0). in_range A u" and ok1: "\<forall>u \<in> set vs1. in_range A u"
    and len: "length (data A) = rows A * cols A"
  shows "run (0 # replicate (2 * length vs1) 1 @ 0 # replicate (2 * length vs0) 0)
             (A, [(v # vs0, None), (vs1, None)])
         = Some (tally ((tally A vs1)\<lparr>data := (data (tally A vs1))[cell_offset A v := data A ! cell_offset A v + 1]\<rparr>) vs0,
                 [([], None), ([], None)])"
proof -
  let ?x = "data A ! cell_offset A v"
  let ?A1 = "tally A vs1"
  let ?A2 = "?A1\<lparr>data := (data ?A1)[cell_offset A v := ?x + 1]\<rparr>"
  have inr: "in_range A v" using ok0 by simp
  have s1: "worker_step 0 (A, [(v # vs0, None), (vs1, None)]) = Some (A, [(v # vs0, Some ?x), (vs1, None)])"
    using worker_read[of 0 "[(v # vs0, None), (vs1, None)]" v vs0 A] inr by simp
  have s2: "run (replicate (2 * length vs1) 1) (A, [(v # vs0, Some ?x), (vs1, None)])
            = Some (?A1, [(v # vs0, Some ?x), ([], None)])"
    using worker_alone[OF ok1 len, of 1 "[(v # vs0, Some ?x), (vs1, None)]"] by simp
  have s3: "worker_step 0 (?A1, [(v # vs0, Some ?x), ([], None)]) = Some (?A2, [(vs0, None), ([], None)])"
    using worker_write[of 0 "[(v # vs0, Some ?x), ([], None)]" v vs0 ?x ?A1]
    by (simp add: cell_offset_def)
  have "\<forall>u \<in> set vs0. in_range ?A2 u" using ok0 by (simp add: in_range_def)
  moreover have "length (data ?A2) = rows ?A2 * cols ?A2" using len by simp
  ultimately have s4: "run (replicate (2 * length vs0) 0) (?A2, [(vs0, None), ([], None)])
                       = Some (tally ?A2 vs0, [([], None), ([], None)])"
    using worker_alone[of vs0 ?A2 0 "[(vs0, None), ([], None)]"] by simp
  show ?thesis
    by (simp only: run.simps s1 option.case run_append s2 s3 s4)
qed

lemma float_to_int_one [simp]: "float_to_int 1 = 1"
  by (simp add: float_to_int_def)

lemma float_to_int_zero [simp]: "float_to_int 0 = 0"
  by (simp add: float_to_int_def)

lemma srcP_normalize: "normalize srcP = srcP"
  by (simp add: normalize_def minMax_def srcP_def cvRound_quot_def)

lemma gP_fields:
  "rhoRange gP = 1" "centerX gP = 1" "centerY gP = 1" "thetaMax gP = 180"
  "rows (accum gP) = 2" "cols (accum gP) = 180" "length (data (accum gP)) = 2 * 180"
  by (simp_all add: gP_def srcP_normalize) (simp_all add: rhoRange_of_def srcP_def Hough_def)

lemma gP_zero: "k < 360 \<Longrightarrow> data (accum gP) ! k = 0"
  by (simp add: gP_def srcP_normalize init_geometry_def MatZeros_def Let_def rhoRange_of_def
      srcP_def Hough_def)

lemma gP_tables: "theta < 180 \<Longrightarrow> sines gP ! theta = sin (theta_rad theta)"
  by (simp add: gP_def sines_Hough)

lemma gP_index_up:
  assumes "theta < 180"
  shows "rho_index_of gP 0 (- 1) theta = (if theta = 0 then 1 else 0)"
proof (cases "theta = 0")
  case True
  then show ?thesis by (simp add: rho_index_of_def gP_fields gP_tables theta_rad_def)
next
  case False
  then have "0 < sin (theta_rad theta)" using assms sin_theta_rad_pos by simp
  moreover have "sin (theta_rad theta) \<le> 1" by simp
  ultimately have "0 \<le> 1 - sin (theta_rad theta)" "\<lfloor>1 - sin (theta_rad theta)\<rfloor> = 0"
    by (linarith, intro floor_unique, simp_all)
  then show ?thesis using False assms
    by (simp add: rho_index_of_def gP_fields gP_tables float_to_int_def)
qed

lemma gP_row_votes:
  "row_votes gP srcP 0 = (1, 0) # map (\<lambda>theta. (0, theta)) [1..<180]"
  "row_votes gP srcP 1 = map (\<lambda>theta. (1, theta)) [0..<180]"
proof -
  have c: "[0..<cols srcP] = [0, 1]" by (simp add: srcP_def upt_rec)
  have "row_votes gP srcP 0 = pixel_votes gP 0 (- 1)"
    unfolding row_votes_def c by (simp add: gP_fields srcP_def)
  also have "\<dots> = (rho_index_of gP 0 (- 1) 0, 0)
                   # map (\<lambda>theta. (rho_index_of gP 0 (- 1) theta, theta)) [1..<180]"
    by (simp add: pixel_votes_def gP_fields upt_conv_Cons)
  also have "\<dots> = (1, 0) # map (\<lambda>theta. (0, theta)) [1..<180]"
    by (simp add: gP_index_up)
  finally show "row_votes gP srcP 0 = (1, 0) # map (\<lambda>theta. (0, theta)) [1..<180]" .
  have "row_votes gP srcP 1 = pixel_votes gP 0 0"
    unfolding row_votes_def c by (simp add: gP_fields srcP_def)
  then show "row_votes gP srcP 1 = map (\<lambda>theta. (1, theta)) [0..<180]"
    by (simp add: pixel_votes_centre gP_fields)
qed

lemma count_list_other_column:
  "c \<notin> set ts \<Longrightarrow> count_list (map (\<lambda>t. (f t, t)) ts) (r, c) = 0"
  by (induction ts) auto

text \<open>
  Claim C5 at a failing input. The claim says that every increment of a cell is atomic, so
  that no vote is lost when two rows target the same cell. For the 2 by 2 image whose right
  column is 255, both rows vote for the cell \<open>(1, 0)\<close> (at \<open>theta = 0\<close> the index is
  \<open>rhoRange + dx\<close>, the same for every pixel of a column), and \<open>init\<close> run row after row
  leaves 2 in it. Under the schedule in which the worker of row 0 reads the cell, the worker
  of row 1 casts all its votes, and the worker of row 0 then writes the value it had read
  plus one and casts the rest of its votes, both workers finish and the cell holds 1.
\<close>

theorem init_parallel_lost_vote:
  "map_option (\<lambda>cfg. (cell (fst cfg) 1 0, finished (snd cfg)))
     (run (0 # replicate 360 1 @ 0 # replicate 358 0) (accum gP, workers gP (normalize srcP)))
     = Some (1, True)
   \<and> count_list (image_votes gP (normalize srcP)) (1, 0) = 2
   \<and> init (Hough 180) srcP
       = Inr (gP\<lparr>accum := tally (accum gP) (image_votes gP (normalize srcP))\<rparr>)
   \<and> cell (tally (accum gP) (image_votes gP (normalize srcP))) 1 0 = 2"
proof -
  let ?vs0 = "map (\<lambda>theta. (0::int, theta)) [1..<180]"
  let ?vs1 = "map (\<lambda>theta. (1::int, theta)) [0..<180]"
  let ?A0 = "accum gP"
  let ?A1 = "tally ?A0 ?vs1"
  let ?A2 = "?A1\<lparr>data := (data ?A1)[cell_offset ?A0 (1, 0) := data ?A0 ! cell_offset ?A0 (1, 0) + 1]\<rparr>"
  let ?A3 = "tally ?A2 ?vs0"
  have r: "[0..<rows srcP] = [0, 1]" by (simp add: srcP_def upt_rec)
  have w: "workers gP (normalize srcP) = [((1, 0) # ?vs0, None), (?vs1, None)]"
    unfolding workers_def srcP_normalize r using gP_row_votes by simp
  have ok0: "\<forall>u \<in> set ((1, 0) # ?vs0). in_range ?A0 u"
    by (auto simp: in_range_def gP_fields)
  have ok1: "\<forall>u \<in> set ?vs1. in_range ?A0 u"
    by (auto simp: in_range_def gP_fields)
  have len: "length (data ?A0) = rows ?A0 * cols ?A0" by (simp add: gP_fields)
  have "run (0 # replicate (2 * length ?vs1) 1 @ 0 # replicate (2 * length ?vs0) 0)
            (?A0, [((1, 0) # ?vs0, None), (?vs1, None)])
        = Some (?A3, [([], None), ([], None)])"
    using ok0 ok1 len by (rule lost_update)
  moreover have "2 * length ?vs1 = 360" "2 * length ?vs0 = 358" by simp_all
  ultimately have run: "run (0 # replicate 360 1 @ 0 # replicate 358 0)
                            (?A0, workers gP (normalize srcP))
                        = Some (?A3, [([], None), ([], None)])"
    unfolding w by simp
  have off: "cell_offset ?A0 (1, 0) = 180"
    by (simp add: cell_offset_def gP_fields)
  have "data ?A3 ! (1 * cols ?A2 + 0) = data ?A2 ! (1 * cols ?A2 + 0) + int (count_list ?vs0 (int 1, 0))"
    by (rule tally_cell) (simp_all add: gP_fields)
  moreover have "count_list ?vs0 (1, 0) = 0" by (rule count_list_other_column) simp
  moreover have "data ?A2 ! 180 = 1" by (simp add: off gP_fields gP_zero)
  ultimately have "data ?A3 ! 180 = 1"
    by (simp add: gP_fields)
  then have c3: "cell ?A3 1 0 = 1" by (simp add: cell_def gP_fields)
  have fin: "finished [([], None), ([], None)]" by (simp add: finished_def)
  have lost: "map_option (\<lambda>cfg. (cell (fst cfg) 1 0, finished (snd cfg)))
     (run (0 # replicate 360 1 @ 0 # replicate 358 0) (accum gP, workers gP (normalize srcP)))
     = Some (1, True)"
    unfolding run using c3 fin by simp
  have votes: "image_votes gP (normalize srcP) = ((1, 0) # ?vs0) @ ?vs1"
    unfolding image_votes_def srcP_normalize r using gP_row_votes by simp
  from votes have cnt: "count_list (image_votes gP (normalize srcP)) (1, 0) = 2"
    by (simp add: count_list_row_votes count_list_other_column)
  have "\<forall>v \<in> set (image_votes gP (normalize srcP)). in_range ?A0 v"
    unfolding votes using ok0 ok1 by (simp only: set_append) blast
  then have "foldE cell_incr (image_votes gP (normalize srcP)) ?A0
             = Inr (tally ?A0 (image_votes gP (normalize srcP)))"
    using len by (rule foldE_cell_incr)
  then have seq: "init (Hough 180) srcP
              = Inr (gP\<lparr>accum := tally (accum gP) (image_votes gP (normalize srcP))\<rparr>)"
    by (simp add: init_def init_accumulate_votes gP_def[symmetric])
  have "data (tally ?A0 (image_votes gP (normalize srcP))) ! (1 * cols ?A0 + 0)
        = data ?A0 ! (1 * cols ?A0 + 0) + int (count_list (image_votes gP (normalize srcP)) (int 1, 0))"
    by (rule tally_cell) (simp_all add: gP_fields)
  then have two: "cell (tally ?A0 (image_votes gP (normalize srcP))) 1 0 = 2"
    using cnt by (simp add: cell_def gP_fields gP_zero)
  from lost cnt seq two show ?thesis by blast
qed

end
